theory Spec2Isabelle
  imports Main "HOL-Library.Word"
begin

section \<open>Bytes, byte sequences and the errors the runtime raises\<close>

text \<open>
  A \<open>Uint8Array\<close> or \<open>Buffer\<close> window is a list of 8-bit words. The two exceptions the
  modelled code can meet are the \<open>RangeError\<close> of an out-of-bounds \<open>DataView\<close> access and
  the \<open>TypeError\<close> of \<open>Buffer.concat\<close> on an element that is \<open>undefined\<close>.
  JavaScript's \<open>undefined\<close> is \<open>None\<close> of an option type.
\<close>

type_synonym byte = "8 word"
type_synonym bytes = "byte list"

datatype error = RangeError | TypeError

section \<open>struct/MerkleTree.ts\<close>

text \<open>
  The instance: the public leaf list \<open>hashes\<close>, the injected \<open>hashFunction\<close> (a pure
  function of the bytes it is given), \<open>hashSize\<close> (a byte count, hence a natural number)
  and the public field \<open>merkleRoot\<close>, which is \<open>undefined\<close> until the constructor assigns it.
\<close>

record MerkleTree =
  hashes :: "bytes list"
  hashFunction :: "bytes \<Rightarrow> bytes"
  hashSize :: nat
  merkleRoot :: "bytes option"

definition DEFAULT_HASH_SIZE :: nat where
  "DEFAULT_HASH_SIZE = 32"

text \<open>
  The inner loop of \<open>computeMerkleRoot\<close>,
  \<^verbatim>\<open>for (let i = hashes.length; i > 1; i -= 2) {
     const nodeHash = Buffer.concat([hashes[i - 2], hashes[i - 1]]);
     hashes[i - 2] = this.hashFunction(nodeHash);
     hashes.pop(); }\<close>
  as a function of the loop variable \<open>i\<close> and the working list. \<open>pop\<close> removes the last
  element of the list (\<open>butlast\<close>), whatever \<open>i\<close> is. An index past the end reads
  \<open>undefined\<close>, on which \<open>Buffer.concat\<close> throws.
\<close>

fun for_loop :: "(bytes \<Rightarrow> bytes) \<Rightarrow> nat \<Rightarrow> bytes list \<Rightarrow> error + bytes list" where
  "for_loop f i hs =
     (if 1 < i then
        (if i - 1 < length hs
         then for_loop f (i - 2) (butlast (hs[i - 2 := f (hs ! (i - 2) @ hs ! (i - 1))]))
         else Inl TypeError)
      else Inr hs)"

declare for_loop.simps [simp del]

lemma for_loop_length:
  "for_loop f i hs = Inr hs' \<Longrightarrow> length hs' = length hs - i div 2"
proof (induction f i hs rule: for_loop.induct)
  case (1 f i hs)
  show ?case
  proof (cases "1 < i")
    case False
    with "1.prems" show ?thesis by (simp add: for_loop.simps)
  next
    case True
    show ?thesis
    proof (cases "i - 1 < length hs")
      case False
      with True "1.prems" show ?thesis by (simp add: for_loop.simps)
    next
      case inb: True
      let ?hs1 = "butlast (hs[i - 2 := f (hs ! (i - 2) @ hs ! (i - 1))])"
      from True inb "1.prems" have "for_loop f (i - 2) ?hs1 = Inr hs'"
        by (simp add: for_loop.simps)
      from "1.IH" [OF True inb this] have "length hs' = length ?hs1 - (i - 2) div 2" .
      moreover have "length ?hs1 = length hs - 1" by simp
      moreover from True have "i div 2 = Suc ((i - 2) div 2)" by presburger
      ultimately show ?thesis by simp
    qed
  qed
qed

text \<open>
  The outer loop \<^verbatim>\<open>while (hashes.length > 1) { for ... }\<close>. Each pass over a list of
  two or more entries pops at least once, so the loop ends.
\<close>

function while_loop :: "(bytes \<Rightarrow> bytes) \<Rightarrow> bytes list \<Rightarrow> error + bytes list" where
  "while_loop f hs =
     (if 1 < length hs then
        (case for_loop f (length hs) hs of
           Inl e \<Rightarrow> Inl e
         | Inr hs' \<Rightarrow> while_loop f hs')
      else Inr hs)"
  by pat_completeness auto
termination
proof (relation "measure (\<lambda>(f, hs). length hs)")
  show "wf (measure (\<lambda>(f, hs). length hs))" by simp
next
  fix f :: "bytes \<Rightarrow> bytes" and hs hs' :: "bytes list"
  assume big: "1 < length hs" and pass: "for_loop f (length hs) hs = Inr hs'"
  from for_loop_length [OF pass] have "length hs' = length hs - length hs div 2" .
  with big have "length hs' < length hs" by presburger
  then show "((f, hs'), (f, hs)) \<in> measure (\<lambda>(f, hs). length hs)" by simp
qed

declare while_loop.simps [simp del]

text \<open>
  \<open>computeMerkleRoot\<close>: pad the stored list when its length is odd, reduce a copy of it,
  return the copy's first entry (\<open>undefined\<close> when the copy is empty). The result comes
  with the instance as the call leaves it.
\<close>

definition computeMerkleRoot :: "MerkleTree \<Rightarrow> (error + bytes option) \<times> MerkleTree" where
  "computeMerkleRoot t =
     (let t' = (if length (hashes t) mod 2 \<noteq> 0
                then t\<lparr>hashes := hashes t @ [hashes t ! (length (hashes t) - 1)]\<rparr>
                else t)
      in case while_loop (hashFunction t') (hashes t') of
           Inl e \<Rightarrow> (Inl e, t')
         | Inr hs \<Rightarrow> (Inr (if hs = [] then None else Some (hs ! 0)), t'))"

text \<open>
  \<open>getRoot\<close>: the zero-filled buffer when the list is empty, else the cached root when
  there is one, else the computation.
\<close>

definition getRoot :: "MerkleTree \<Rightarrow> (error + bytes option) \<times> MerkleTree" where
  "getRoot t =
     (if length (hashes t) = 0 then (Inr (Some (replicate (hashSize t) 0)), t)
      else if merkleRoot t \<noteq> None then (Inr (merkleRoot t), t)
      else computeMerkleRoot t)"

text \<open>
  The constructor stores its three parameters and assigns \<open>this.merkleRoot = this.getRoot()\<close>.
  An exception inside \<open>getRoot\<close> leaves no instance. Omitting \<open>hashSize\<close> is passing
  \<open>DEFAULT_HASH_SIZE\<close>.
\<close>

definition MerkleTree_new ::
  "bytes list \<Rightarrow> (bytes \<Rightarrow> bytes) \<Rightarrow> nat \<Rightarrow> error + MerkleTree" where
  "MerkleTree_new hs f n =
     (case getRoot \<lparr>hashes = hs, hashFunction = f, hashSize = n, merkleRoot = None\<rparr> of
        (Inl e, t) \<Rightarrow> Inl e
      | (Inr r, t) \<Rightarrow> Inr (t\<lparr>merkleRoot := r\<rparr>))"

text \<open>
  The reading of the specification's sentence on one reduction pass: the parents of the
  pairs taken left to right, \<open>[f (h0 @ h1), f (h2 @ h3), ...]\<close>.
\<close>

fun parent_hashes :: "(bytes \<Rightarrow> bytes) \<Rightarrow> bytes list \<Rightarrow> bytes list" where
  "parent_hashes f (a # b # r) = f (a @ b) # parent_hashes f r"
| "parent_hashes f r = []"

text \<open>
  What a pass over the first pairs of a list leaves behind before any entry is dropped:
  each left entry replaced by the parent of its pair, each right entry still in place.
\<close>

fun pair_up :: "(bytes \<Rightarrow> bytes) \<Rightarrow> bytes list \<Rightarrow> bytes list" where
  "pair_up f (a # b # r) = f (a @ b) # b # pair_up f r"
| "pair_up f r = r"

section \<open>DataView accessors\<close>

text \<open>
  \<open>le_bytes n v\<close> is the \<open>n\<close>-byte little-endian image of the integer \<open>v\<close> taken modulo
  \<open>2 ^ (8 * n)\<close> (the conversion the setters apply to their argument), \<open>le_val\<close> the
  unsigned value of a little-endian byte sequence. The values are integers: fractional
  numbers and \<open>NaN\<close> are outside the model.
\<close>

fun le_bytes :: "nat \<Rightarrow> int \<Rightarrow> bytes" where
  "le_bytes 0 v = []"
| "le_bytes (Suc n) v = word_of_int v # le_bytes n (v div 256)"

fun le_val :: "bytes \<Rightarrow> int" where
  "le_val [] = 0"
| "le_val (b # bs) = uint b + 256 * le_val bs"

text \<open>
  An access of \<open>n\<close> bytes at \<open>off\<close> is inside the view when \<open>0 \<le> off\<close> and
  \<open>off + n \<le> byteLength\<close>; otherwise the accessor throws \<open>RangeError\<close>. The flag is the
  accessor's \<open>littleEndian\<close> argument; leaving it out means big-endian.
\<close>

definition in_view :: "bytes \<Rightarrow> int \<Rightarrow> nat \<Rightarrow> bool" where
  "in_view d off n = (0 \<le> off \<and> off + int n \<le> int (length d))"

definition DataView_setUint :: "nat \<Rightarrow> bool \<Rightarrow> bytes \<Rightarrow> int \<Rightarrow> int \<Rightarrow> error + bytes" where
  "DataView_setUint n littleEndian d off v =
     (if in_view d off n
      then Inr (take (nat off) d
                @ (if littleEndian then le_bytes n v else rev (le_bytes n v))
                @ drop (nat off + n) d)
      else Inl RangeError)"

definition DataView_getUint :: "nat \<Rightarrow> bool \<Rightarrow> bytes \<Rightarrow> int \<Rightarrow> error + int" where
  "DataView_getUint n littleEndian d off =
     (if in_view d off n
      then (let raw = take n (drop (nat off) d)
            in Inr (le_val (if littleEndian then raw else rev raw)))
      else Inl RangeError)"

definition DataView_getInt :: "nat \<Rightarrow> bool \<Rightarrow> bytes \<Rightarrow> int \<Rightarrow> error + int" where
  "DataView_getInt n littleEndian d off =
     (case DataView_getUint n littleEndian d off of
        Inl e \<Rightarrow> Inl e
      | Inr u \<Rightarrow> Inr (if u < 2 ^ (8 * n - 1) then u else u - 2 ^ (8 * n)))"

section \<open>buffer/Writer.ts\<close>

text \<open>
  The writer's \<open>buffer\<close> and its \<open>DataView\<close> \<open>data\<close> are the same window of memory, one
  byte list here. The constructor stores the offset as it is given (0 when omitted).
\<close>

record Writer =
  wr_buffer :: bytes
  wr_offset :: int
  wr_size :: nat

definition Writer_new :: "bytes \<Rightarrow> int \<Rightarrow> Writer" where
  "Writer_new buf off = \<lparr>wr_buffer = buf, wr_offset = off, wr_size = length buf\<rparr>"

text \<open>
  \<^verbatim>\<open>this.buffer[this.offset++] = v\<close>: an element store on a typed array keeps \<open>v\<close> modulo
  256 and does nothing when the index is outside the array; it never throws.
\<close>

definition writeUint8 :: "Writer \<Rightarrow> int \<Rightarrow> Writer" where
  "writeUint8 w v =
     w\<lparr>wr_buffer :=
         (if 0 \<le> wr_offset w \<and> wr_offset w < int (length (wr_buffer w))
          then (wr_buffer w)[nat (wr_offset w) := word_of_int v]
          else wr_buffer w),
       wr_offset := wr_offset w + 1\<rparr>"

text \<open>
  The wider writes go through the \<open>DataView\<close>, little-endian; the offset moves only after
  the store, so an exception leaves the writer as it was.
\<close>

definition writeUint16 :: "Writer \<Rightarrow> int \<Rightarrow> error + Writer" where
  "writeUint16 w v =
     (case DataView_setUint 2 True (wr_buffer w) (wr_offset w) v of
        Inl e \<Rightarrow> Inl e
      | Inr b \<Rightarrow> Inr (w\<lparr>wr_buffer := b, wr_offset := wr_offset w + 2\<rparr>))"

definition writeUint32 :: "Writer \<Rightarrow> int \<Rightarrow> error + Writer" where
  "writeUint32 w v =
     (case DataView_setUint 4 True (wr_buffer w) (wr_offset w) v of
        Inl e \<Rightarrow> Inl e
      | Inr b \<Rightarrow> Inr (w\<lparr>wr_buffer := b, wr_offset := wr_offset w + 4\<rparr>))"

definition writeUint64 :: "Writer \<Rightarrow> int \<Rightarrow> error + Writer" where
  "writeUint64 w v =
     (case DataView_setUint 8 True (wr_buffer w) (wr_offset w) v of
        Inl e \<Rightarrow> Inl e
      | Inr b \<Rightarrow> Inr (w\<lparr>wr_buffer := b, wr_offset := wr_offset w + 8\<rparr>))"

text \<open>
  \<^verbatim>\<open>for (let i = index; i < buf.byteLength; i++) this.writeUint8(buf[i])\<close>, as a function
  of the loop variable. A negative index reads \<open>undefined\<close>, which is stored as 0.
\<close>

function writeBuffer :: "Writer \<Rightarrow> bytes \<Rightarrow> int \<Rightarrow> Writer" where
  "writeBuffer w buf i =
     (if i < int (length buf)
      then writeBuffer (writeUint8 w (if 0 \<le> i then uint (buf ! nat i) else 0)) buf (i + 1)
      else w)"
  by pat_completeness auto
termination
  by (relation "measure (\<lambda>(w, buf, i). nat (int (length buf) - i))") auto

declare writeBuffer.simps [simp del]

section \<open>buffer/Reader.ts\<close>

text \<open>
  The constructor stores the offset, then resets it to 0 when it is negative or not below
  the buffer's length.
\<close>

record Reader =
  rd_buffer :: bytes
  rd_offset :: int
  rd_size :: nat

definition Reader_new :: "bytes \<Rightarrow> int \<Rightarrow> Reader" where
  "Reader_new buf off =
     \<lparr>rd_buffer = buf,
      rd_offset = (if off < 0 \<or> off \<ge> int (length buf) then 0 else off),
      rd_size = length buf\<rparr>"

text \<open>
  \<^verbatim>\<open>return this.buffer[this.offset++]\<close>: \<open>undefined\<close> outside the array. The wider reads
  move the offset first and then read through the \<open>DataView\<close>, which may throw; the
  reader is returned as the call leaves it in both cases.
\<close>

definition readUint8 :: "Reader \<Rightarrow> int option \<times> Reader" where
  "readUint8 r =
     ((if 0 \<le> rd_offset r \<and> rd_offset r < int (length (rd_buffer r))
       then Some (uint (rd_buffer r ! nat (rd_offset r)))
       else None),
      r\<lparr>rd_offset := rd_offset r + 1\<rparr>)"

definition readUint16 :: "Reader \<Rightarrow> (error + int) \<times> Reader" where
  "readUint16 r =
     (let r' = r\<lparr>rd_offset := rd_offset r + 2\<rparr>
      in (DataView_getUint 2 True (rd_buffer r') (rd_offset r' - 2), r'))"

definition readUint32 :: "Reader \<Rightarrow> (error + int) \<times> Reader" where
  "readUint32 r =
     (let r' = r\<lparr>rd_offset := rd_offset r + 4\<rparr>
      in (DataView_getUint 4 True (rd_buffer r') (rd_offset r' - 4), r'))"

definition readUint64 :: "Reader \<Rightarrow> (error + int) \<times> Reader" where
  "readUint64 r =
     (let r' = r\<lparr>rd_offset := rd_offset r + 8\<rparr>
      in (DataView_getUint 8 True (rd_buffer r') (rd_offset r' - 8), r'))"

text \<open>
  \<open>subarray(b, e)\<close> of a typed array: a negative bound counts from the end, every bound
  is clamped to the array, and an empty range gives an empty view. It never throws.
\<close>

definition subarray :: "bytes \<Rightarrow> int \<Rightarrow> int \<Rightarrow> bytes" where
  "subarray a b e =
     (let len = int (length a);
          beginIndex = (if b < 0 then max (len + b) 0 else min b len);
          endIndex = (if e < 0 then max (len + e) 0 else min e len)
      in take (nat (max (endIndex - beginIndex) 0)) (drop (nat beginIndex) a))"

definition readBuffer :: "Reader \<Rightarrow> int \<Rightarrow> bytes \<times> Reader" where
  "readBuffer r sz =
     (let r' = r\<lparr>rd_offset := rd_offset r + sz\<rparr>
      in (subarray (rd_buffer r') (rd_offset r' - sz) (rd_offset r'), r'))"

section \<open>buffer/Template.ts and types/TemplateField.ts\<close>

text \<open>
  A field's \<open>data\<close> is a \<open>Uint8Array\<close>: a window of \<open>byteLength\<close> bytes at \<open>byteOffset\<close> of
  an underlying \<open>ArrayBuffer\<close>. A freshly built array (\<open>new Uint8Array([...])\<close>,
  \<open>Uint8Array.from\<close>) sits at offset 0 of a buffer of its own.
\<close>

record Uint8Array =
  u8_buffer :: bytes
  u8_byteOffset :: nat
  u8_byteLength :: nat

definition Uint8Array_of :: "bytes \<Rightarrow> Uint8Array" where
  "Uint8Array_of bs = \<lparr>u8_buffer = bs, u8_byteOffset = 0, u8_byteLength = length bs\<rparr>"

definition u8_bytes :: "Uint8Array \<Rightarrow> bytes" where
  "u8_bytes a = take (u8_byteLength a) (drop (u8_byteOffset a) (u8_buffer a))"

definition u8_wf :: "Uint8Array \<Rightarrow> bool" where
  "u8_wf a = (u8_byteOffset a + u8_byteLength a \<le> length (u8_buffer a))"

datatype FieldType = buffer | uint8 | uint16 | uint32 | uint64

record TemplateField =
  fld_type :: FieldType
  fld_data :: Uint8Array

record Template =
  tpl_fields :: "TemplateField list"
  tpl_byteLength :: nat

definition Template_new :: "TemplateField list \<Rightarrow> Template" where
  "Template_new fs =
     \<lparr>tpl_fields = fs,
      tpl_byteLength = foldl (\<lambda>prev cur. prev + cur) 0 (map (\<lambda>f. u8_byteLength (fld_data f)) fs)\<rparr>"

text \<open>
  \<open>Buffer.allocUnsafe(n)\<close> gives \<open>n\<close> bytes of whatever the memory holds; the memory is a
  parameter.
\<close>

definition allocUnsafe :: "(nat \<Rightarrow> byte) \<Rightarrow> nat \<Rightarrow> bytes" where
  "allocUnsafe mem n = map mem [0..<n]"

text \<open>
  The body of the loop of \<open>toBuffer\<close>. The view is \<open>new DataView(data.buffer)\<close>: the whole
  underlying buffer from its byte 0. The getters are called without the \<open>littleEndian\<close>
  argument and read a signed big-endian integer.
\<close>

definition toBuffer_field :: "Writer \<Rightarrow> TemplateField \<Rightarrow> error + Writer" where
  "toBuffer_field writer fld =
     (let view = u8_buffer (fld_data fld) in
      case fld_type fld of
        buffer \<Rightarrow> Inr (writeBuffer writer (u8_bytes (fld_data fld)) 0)
      | uint8 \<Rightarrow>
          (case DataView_getInt 1 False view 0 of
             Inl e \<Rightarrow> Inl e | Inr v \<Rightarrow> Inr (writeUint8 writer v))
      | uint16 \<Rightarrow>
          (case DataView_getInt 2 False view 0 of
             Inl e \<Rightarrow> Inl e | Inr v \<Rightarrow> writeUint16 writer v)
      | uint32 \<Rightarrow>
          (case DataView_getInt 4 False view 0 of
             Inl e \<Rightarrow> Inl e | Inr v \<Rightarrow> writeUint32 writer v)
      | uint64 \<Rightarrow>
          (case DataView_getInt 8 False view 0 of
             Inl e \<Rightarrow> Inl e | Inr v \<Rightarrow> writeUint64 writer v))"

fun toBuffer_loop :: "Writer \<Rightarrow> TemplateField list \<Rightarrow> error + Writer" where
  "toBuffer_loop writer [] = Inr writer"
| "toBuffer_loop writer (fld # rest) =
     (case toBuffer_field writer fld of
        Inl e \<Rightarrow> Inl e
      | Inr writer' \<Rightarrow> toBuffer_loop writer' rest)"

definition toBuffer :: "(nat \<Rightarrow> byte) \<Rightarrow> Template \<Rightarrow> error + bytes" where
  "toBuffer mem t =
     (case toBuffer_loop (Writer_new (allocUnsafe mem (tpl_byteLength t)) 0) (tpl_fields t) of
        Inl e \<Rightarrow> Inl e
      | Inr writer \<Rightarrow> Inr (wr_buffer writer))"

text \<open>
  The width the specification calls declared: 1, 2, 4 or 8 for the integer kinds, the
  length of the data for a raw-bytes field.
\<close>

definition declared_width :: "TemplateField \<Rightarrow> nat" where
  "declared_width fld =
     (case fld_type fld of
        buffer \<Rightarrow> u8_byteLength (fld_data fld)
      | uint8 \<Rightarrow> 1 | uint16 \<Rightarrow> 2 | uint32 \<Rightarrow> 4 | uint64 \<Rightarrow> 8)"

section \<open>Example inputs\<close>

text \<open>
  A memory that holds zeros, for evaluating \<open>toBuffer\<close> on examples; the template of
  the test "should create a buffer with correctly aligned fields" of
  \<open>tests/02-buffer/Template.spec.ts\<close>, which expects the bytes \<open>01 02 03 ... 0F\<close>; and
  its \<open>uint32\<close> field alone.
\<close>

definition zero_memory :: "nat \<Rightarrow> byte" where
  "zero_memory i = 0"

definition spec_fields :: "TemplateField list" where
  "spec_fields =
     [\<lparr>fld_type = uint8, fld_data = Uint8Array_of [1]\<rparr>,
      \<lparr>fld_type = uint16, fld_data = Uint8Array_of [3, 2]\<rparr>,
      \<lparr>fld_type = uint32, fld_data = Uint8Array_of [7, 6, 5, 4]\<rparr>,
      \<lparr>fld_type = buffer, fld_data = Uint8Array_of [8, 9, 10, 11, 12, 13, 14, 15]\<rparr>]"

definition uint32_field :: TemplateField where
  "uint32_field = \<lparr>fld_type = uint32, fld_data = Uint8Array_of [7, 6, 5, 4]\<rparr>"

section \<open>Properties of the Merkle tree\<close>

text \<open>
  Started at the list's length, the inner loop stays inside the list, and the outer loop
  ends with at most one entry; none is lost from a non-empty list.
\<close>

lemma for_loop_total:
  "i \<le> length hs \<Longrightarrow> \<exists>hs'. for_loop f i hs = Inr hs'"
proof (induction f i hs rule: for_loop.induct)
  case (1 f i hs)
  show ?case
  proof (cases "1 < i")
    case False
    then show ?thesis by (simp add: for_loop.simps)
  next
    case True
    with "1.prems" have inb: "i - 1 < length hs" by simp
    let ?hs1 = "butlast (hs[i - 2 := f (hs ! (i - 2) @ hs ! (i - 1))])"
    from True "1.prems" have "i - 2 \<le> length ?hs1" by simp
    from "1.IH" [OF True inb this] obtain hs' where "for_loop f (i - 2) ?hs1 = Inr hs'" ..
    with True inb show ?thesis by (simp add: for_loop.simps)
  qed
qed

lemma while_loop_total:
  "\<exists>hs'. while_loop f hs = Inr hs' \<and> (hs \<noteq> [] \<longrightarrow> hs' \<noteq> [])"
proof (induction f hs rule: while_loop.induct)
  case (1 f hs)
  show ?case
  proof (cases "1 < length hs")
    case False
    then show ?thesis by (simp add: while_loop.simps)
  next
    case True
    from for_loop_total [of "length hs" hs f] obtain hs1 where
      pass: "for_loop f (length hs) hs = Inr hs1" by auto
    from for_loop_length [OF pass] True have "0 < length hs1" by linarith
    then have "hs1 \<noteq> []" by simp
    with "1.IH" [OF True pass] obtain hs' where
      "while_loop f hs1 = Inr hs'" "hs' \<noteq> []" by auto
    with True pass show ?thesis by (simp add: while_loop.simps)
  qed
qed

lemma computeMerkleRoot_ok:
  "\<exists>r. computeMerkleRoot t =
     (Inr r, t\<lparr>hashes := (if length (hashes t) mod 2 \<noteq> 0
                          then hashes t @ [hashes t ! (length (hashes t) - 1)]
                          else hashes t)\<rparr>)
       \<and> (hashes t \<noteq> [] \<longrightarrow> r \<noteq> None)"
proof -
  let ?hs = "if length (hashes t) mod 2 \<noteq> 0
             then hashes t @ [hashes t ! (length (hashes t) - 1)] else hashes t"
  from while_loop_total [of "hashFunction t" ?hs] obtain hs' where
    w: "while_loop (hashFunction t) ?hs = Inr hs'" and ne: "?hs \<noteq> [] \<longrightarrow> hs' \<noteq> []"
    by blast
  show ?thesis
  proof (cases "length (hashes t) mod 2 \<noteq> 0")
    case True
    with w ne show ?thesis by (simp add: computeMerkleRoot_def)
  next
    case False
    with w ne show ?thesis by (simp add: computeMerkleRoot_def)
  qed
qed

lemma MerkleTree_new_ok:
  "\<exists>r. MerkleTree_new hs f n =
     Inr \<lparr>hashes = (if length hs mod 2 \<noteq> 0 then hs @ [hs ! (length hs - 1)] else hs),
          hashFunction = f, hashSize = n, merkleRoot = Some r\<rparr>"
proof (cases "hs = []")
  case True
  then show ?thesis by (simp add: MerkleTree_new_def getRoot_def)
next
  case False
  let ?t = "\<lparr>hashes = hs, hashFunction = f, hashSize = n, merkleRoot = None\<rparr>"
  from computeMerkleRoot_ok [of ?t] False obtain r where
    "computeMerkleRoot ?t =
       (Inr (Some r), ?t\<lparr>hashes := (if length hs mod 2 \<noteq> 0 then hs @ [hs ! (length hs - 1)] else hs)\<rparr>)"
    by auto
  with False show ?thesis by (simp add: MerkleTree_new_def getRoot_def)
qed

text \<open>
  One pass of the inner loop, in closed form. The rounds run from the last pair to the
  first; each stores a parent over the left entry of its pair and drops the last entry
  of the list. After the rounds the list is \<open>pair_up\<close> cut to its first half: for an
  even number \<open>N\<close> of entries, \<open>[f (h0 @ h1), h1, f (h2 @ h3), h3, ...]\<close> cut to \<open>N div 2\<close>
  entries.
\<close>

lemma length_pair_up [simp]: "length (pair_up f hs) = length hs"
  by (induction f hs rule: pair_up.induct) simp_all

lemma pair_up_snoc2:
  "even (length xs) \<Longrightarrow> pair_up f (xs @ [a, b]) = pair_up f xs @ [f (a @ b), b]"
  by (induction f xs rule: pair_up.induct) simp_all

lemma for_loop_pass:
  "even i \<Longrightarrow> i \<le> length hs \<Longrightarrow>
     for_loop f i hs = Inr (take (length hs - i div 2) (pair_up f (take i hs) @ drop i hs))"
proof (induction f i hs rule: for_loop.induct)
  case (1 f i hs)
  show ?case
  proof (cases "1 < i")
    case False
    with "1.prems" have "i = 0" by presburger
    then show ?thesis by (simp add: for_loop.simps)
  next
    case True
    with "1.prems" have inb: "i - 1 < length hs" by simp
    let ?F = "f (hs ! (i - 2) @ hs ! (i - 1))"
    let ?hs1 = "butlast (hs[i - 2 := ?F])"
    let ?P = "pair_up f (take (i - 2) hs)"
    from True "1.prems" have ev: "even (i - 2)" and le: "i - 2 \<le> length ?hs1" by simp_all
    from True have i2: "i div 2 = Suc ((i - 2) div 2)" by presburger
    from True "1.prems" have L: "length ?hs1 - (i - 2) div 2 = length hs - i div 2"
      by (simp add: i2)
    have tk: "take (i - 2) ?hs1 = take (i - 2) hs"
      using True "1.prems" by (simp add: butlast_conv_take)
    from True "1.prems" have sp: "take i hs = take (i - 2) hs @ [hs ! (i - 2), hs ! (i - 1)]"
    proof -
      from True have "i = Suc (Suc (i - 2))" by simp
      moreover from True "1.prems" have "i - 2 < length hs" "Suc (i - 2) < length hs" by simp_all
      moreover from True have "Suc (i - 2) = i - 1" by simp
      ultimately show ?thesis
        by (metis append.assoc append_Cons append_Nil take_Suc_conv_app_nth)
    qed
    from ev True "1.prems" have evl: "even (length (take (i - 2) hs))" by simp
    have whole: "pair_up f (take i hs) @ drop i hs = ?P @ [?F, hs ! (i - 1)] @ drop i hs"
      by (simp add: sp pair_up_snoc2 [OF evl])
    have upd: "hs[i - 2 := ?F] = take (i - 2) hs @ ?F # hs ! (i - 1) # drop i hs"
    proof -
      from True "1.prems" have a: "i - 2 < length hs" and b: "i - 1 < length hs" by simp_all
      from True have s: "Suc (i - 2) = i - 1" "Suc (i - 1) = i" by simp_all
      from b have "drop (i - 1) hs = hs ! (i - 1) # drop (Suc (i - 1)) hs"
        by (rule Cons_nth_drop_Suc [symmetric])
      with s have "drop (Suc (i - 2)) hs = hs ! (i - 1) # drop i hs" by simp
      with upd_conv_take_nth_drop [OF a, of ?F] show ?thesis by simp
    qed
    have bl: "?hs1 = take (i - 2) hs @ butlast (?F # hs ! (i - 1) # drop i hs)"
      by (subst upd) (simp add: butlast_append)
    have d1: "drop (i - 2) ?hs1 = butlast (?F # hs ! (i - 1) # drop i hs)"
      using True "1.prems" by (subst bl) simp
    have "for_loop f i hs = for_loop f (i - 2) ?hs1"
      using True inb by (subst for_loop.simps) simp
    also have "\<dots> = Inr (take (length ?hs1 - (i - 2) div 2)
                          (pair_up f (take (i - 2) ?hs1) @ drop (i - 2) ?hs1))"
      by (rule "1.IH" [OF True inb ev le])
    also have "pair_up f (take (i - 2) ?hs1) @ drop (i - 2) ?hs1
                 = butlast (?P @ [?F, hs ! (i - 1)] @ drop i hs)"
      by (simp only: tk d1) (simp add: butlast_append)
    also have "take (length ?hs1 - (i - 2) div 2) (butlast (?P @ [?F, hs ! (i - 1)] @ drop i hs))
                 = take (length hs - i div 2) (?P @ [?F, hs ! (i - 1)] @ drop i hs)"
    proof -
      have gen: "take n (butlast xs) = take n xs" if "n \<le> length xs - 1" for n and xs :: "bytes list"
        using that by (simp add: butlast_conv_take min_absorb1)
      from True "1.prems" have "length hs - i div 2 \<le> length (?P @ [?F, hs ! (i - 1)] @ drop i hs) - 1"
        by (simp add: i2)
      from gen [OF this] show ?thesis unfolding L .
    qed
    finally show ?thesis by (simp only: whole)
  qed
qed

lemma for_loop_pass_even:
  assumes "even (length hs)"
  shows "for_loop f (length hs) hs = Inr (take (length hs div 2) (pair_up f hs))"
proof -
  from assms have "length hs - length hs div 2 = length hs div 2" by presburger
  with for_loop_pass [OF assms, of hs f] show ?thesis by simp
qed

text \<open>
  C1. One pass of the inner loop over an even number of leaves should leave the parents
  \<open>[f (h0 @ h1), f (h2 @ h3), ...]\<close>. On four leaves \<open>a, b, c, d\<close> it leaves
  \<open>[f (a @ b), b]\<close>: the second \<open>pop\<close> removes the parent of \<open>c\<close> and \<open>d\<close> that the first
  round stored, not the consumed leaf \<open>b\<close>. The root of the four leaves is then
  \<open>f (f (a @ b) @ b)\<close>, in which \<open>c\<close> and \<open>d\<close> do not occur.
\<close>

theorem for_loop_four_leaves:
  "for_loop f 4 [a, b, c, d] = Inr [f (a @ b), b]
   \<and> parent_hashes f [a, b, c, d] = [f (a @ b), f (c @ d)]
   \<and> for_loop id 4 [[1], [2], [3], [4]] = Inr [[1, 2], [2]]
   \<and> parent_hashes id [[1], [2], [3], [4]] = [[1, 2], [3, 4]]
   \<and> MerkleTree_new [a, b, c, d] f n =
       Inr \<lparr>hashes = [a, b, c, d], hashFunction = f, hashSize = n,
            merkleRoot = Some (f (f (a @ b) @ b))\<rparr>"
  by (simp add: for_loop.simps while_loop.simps MerkleTree_new_def getRoot_def computeMerkleRoot_def)

text \<open>
  C8. On an empty leaf list \<open>getRoot\<close> returns \<open>hashSize\<close> zero bytes, whatever the hash
  function and the cached root are; the hash function does not occur in the result. The
  constructor on an empty list caches that value, 32 zero bytes for the default size.
\<close>

theorem getRoot_empty:
  "(hashes t = [] \<longrightarrow> getRoot t = (Inr (Some (replicate (hashSize t) 0)), t))
   \<and> MerkleTree_new [] f n =
       Inr \<lparr>hashes = [], hashFunction = f, hashSize = n, merkleRoot = Some (replicate n 0)\<rparr>
   \<and> MerkleTree_new [] f DEFAULT_HASH_SIZE =
       Inr \<lparr>hashes = [], hashFunction = f, hashSize = 32, merkleRoot = Some (replicate 32 0)\<rparr>"
  by (simp add: getRoot_def MerkleTree_new_def DEFAULT_HASH_SIZE_def)

theorem getRoot_empty_witness:
  "hashes \<lparr>hashes = [], hashFunction = rev, hashSize = 4, merkleRoot = Some [7, 7, 7, 7]\<rparr> = []
   \<and> fst (getRoot \<lparr>hashes = [], hashFunction = rev, hashSize = 4, merkleRoot = Some [7, 7, 7, 7]\<rparr>)
       = Inr (Some [0, 0, 0, 0])"
  using getRoot_empty [of "\<lparr>hashes = [], hashFunction = rev, hashSize = 4, merkleRoot = Some [7, 7, 7, 7]\<rparr>"]
  by (simp add: numeral_eq_Suc)

text \<open>
  C7. Construction always succeeds and leaves an even number of leaves: an odd list has
  one copy of its last leaf appended, an even list is unchanged. Neither \<open>getRoot\<close> nor
  \<open>computeMerkleRoot\<close> changes the constructed instance afterwards.
\<close>

theorem MerkleTree_new_even:
  "\<exists>t. MerkleTree_new hs f n = Inr t
      \<and> hashes t = (if odd (length hs) then hs @ [last hs] else hs)
      \<and> even (length (hashes t))
      \<and> snd (getRoot t) = t
      \<and> snd (computeMerkleRoot t) = t"
proof -
  let ?hs = "if length hs mod 2 \<noteq> 0 then hs @ [hs ! (length hs - 1)] else hs"
  from MerkleTree_new_ok [of hs f n] obtain r where
    new: "MerkleTree_new hs f n =
            Inr \<lparr>hashes = ?hs, hashFunction = f, hashSize = n, merkleRoot = Some r\<rparr>" ..
  let ?t = "\<lparr>hashes = ?hs, hashFunction = f, hashSize = n, merkleRoot = Some r\<rparr>"
  have ev: "even (length ?hs)"
  proof (cases "length hs mod 2 = 0")
    case True
    then show ?thesis by (simp add: even_iff_mod_2_eq_zero)
  next
    case False
    then have "odd (length hs)" by (simp add: even_iff_mod_2_eq_zero)
    with False show ?thesis by simp
  qed
  have pad: "?hs = (if odd (length hs) then hs @ [last hs] else hs)"
    by (cases "hs = []") (simp_all add: last_conv_nth odd_iff_mod_2_eq_one)
  have g: "snd (getRoot ?t) = ?t" by (simp add: getRoot_def)
  from computeMerkleRoot_ok [of ?t] obtain r' where
    "computeMerkleRoot ?t =
      (Inr r', ?t\<lparr>hashes := (if length (hashes ?t) mod 2 \<noteq> 0
                          then hashes ?t @ [hashes ?t ! (length (hashes ?t) - 1)]
                          else hashes ?t)\<rparr>)" by blast
  moreover from ev have "length (hashes ?t) mod 2 = 0" by (simp del: One_nat_def)
  ultimately have c: "snd (computeMerkleRoot ?t) = ?t" by simp
  from new pad ev g c show ?thesis by (simp del: One_nat_def)
qed

theorem MerkleTree_new_even_witness:
  "\<exists>t. MerkleTree_new [[1], [2], [3]] rev 32 = Inr t
      \<and> hashes t = [[1], [2], [3], [3]] \<and> length (hashes t) = 4 \<and> hashes t ! 3 = [3]"
  using MerkleTree_new_even [of "[[1], [2], [3]]" rev 32] by auto

text \<open>
  C3. As stated (every mutation of the leaf list between two calls of \<open>getRoot\<close> leaves
  the result the same) the claim fails when the list of a tree built from leaves is
  emptied: the emptiness test comes before the cache, and the second call returns
  \<open>hashSize\<close> zero bytes. Tree of the single leaf \<open>[1]\<close>, \<open>hashFunction = rev\<close>,
  \<open>hashSize = 1\<close>: the root is \<open>[1, 1]\<close>, after emptying the list \<open>getRoot\<close> gives \<open>[0]\<close>.
\<close>

theorem getRoot_emptied_counterexample:
  "MerkleTree_new [[1]] rev 1 = Inr \<lparr>hashes = [[1], [1]], hashFunction = rev, hashSize = 1, merkleRoot = Some [1, 1]\<rparr>
   \<and> fst (getRoot \<lparr>hashes = [[1], [1]], hashFunction = rev, hashSize = 1, merkleRoot = Some [1, 1]\<rparr>) = Inr (Some [1, 1])
   \<and> fst (getRoot (\<lparr>hashes = [[1], [1]], hashFunction = rev, hashSize = 1, merkleRoot = Some [1, 1]\<rparr>\<lparr>hashes := []\<rparr>)) = Inr (Some [0])
   \<and> [1, 1] \<noteq> [0 :: byte]"
  by (simp add: for_loop.simps while_loop.simps MerkleTree_new_def getRoot_def computeMerkleRoot_def)

text \<open>
  C3, amended. \<open>getRoot\<close> on a constructed tree returns the same value after the caller
  replaces the leaf list by any list \<open>hs'\<close>, provided \<open>hs'\<close> is not empty or the tree was
  built from the empty list.
\<close>

theorem getRoot_cached:
  "MerkleTree_new hs f n = Inr t \<Longrightarrow> hs' \<noteq> [] \<or> hs = [] \<Longrightarrow>
     fst (getRoot (t\<lparr>hashes := hs'\<rparr>)) = fst (getRoot t)"
proof -
  assume new: "MerkleTree_new hs f n = Inr t" and side: "hs' \<noteq> [] \<or> hs = []"
  from MerkleTree_new_ok [of hs f n] new obtain r where
    t: "t = \<lparr>hashes = (if length hs mod 2 \<noteq> 0 then hs @ [hs ! (length hs - 1)] else hs),
              hashFunction = f, hashSize = n, merkleRoot = Some r\<rparr>" by auto
  show ?thesis
  proof (cases "hs = []")
    case True
    with new have "t = \<lparr>hashes = [], hashFunction = f, hashSize = n, merkleRoot = Some (replicate n 0)\<rparr>"
      by (simp add: MerkleTree_new_def getRoot_def)
    then show ?thesis by (simp add: getRoot_def)
  next
    case False
    with side have "hs' \<noteq> []" by simp
    with False t show ?thesis by (simp add: getRoot_def)
  qed
qed

theorem getRoot_cached_witness:
  "MerkleTree_new [[1]] rev 1 = Inr \<lparr>hashes = [[1], [1]], hashFunction = rev, hashSize = 1, merkleRoot = Some [1, 1]\<rparr>
   \<and> [[5], [6], [7]] \<noteq> ([] :: bytes list)
   \<and> fst (getRoot \<lparr>hashes = [[5], [6], [7]], hashFunction = rev, hashSize = 1, merkleRoot = Some [1, 1]\<rparr>)
      = Inr (Some [1, 1])"
proof -
  have new: "MerkleTree_new [[1]] rev 1 = Inr \<lparr>hashes = [[1], [1]], hashFunction = rev, hashSize = 1, merkleRoot = Some [1, 1]\<rparr>"
    by (simp add: for_loop.simps while_loop.simps MerkleTree_new_def getRoot_def computeMerkleRoot_def)
  have side: "[[5], [6], [7]] \<noteq> ([] :: bytes list) \<or> [[1 :: byte]] = []" by simp
  from getRoot_cached [OF new side] new show ?thesis by (simp add: getRoot_def)
qed

section \<open>Properties of the byte encodings\<close>

text \<open>
  Encoding then decoding gives the value modulo \<open>256 ^ n\<close>; decoding then encoding gives
  the bytes back; the encoding does not see multiples of \<open>256 ^ n\<close>, so a signed reading
  of \<open>n\<close> bytes is written back as the same bytes.
\<close>

lemma length_le_bytes [simp]: "length (le_bytes n v) = n"
  by (induction n arbitrary: v) simp_all

lemma uint_byte_of_int: "uint (word_of_int v :: byte) = v mod 256"
  by (simp add: uint_word_of_int)

lemma le_val_le_bytes: "le_val (le_bytes n v) = v mod 256 ^ n"
proof (induction n arbitrary: v)
  case 0
  show ?case by simp
next
  case (Suc n)
  have "le_val (le_bytes (Suc n) v) = v mod 256 + 256 * ((v div 256) mod 256 ^ n)"
    by (simp add: Suc.IH uint_byte_of_int)
  also have "\<dots> = v mod (256 * 256 ^ n)"
    using zmod_zmult2_eq [of "256 ^ n" v 256] by simp
  finally show ?case by simp
qed

lemma le_val_bounds: "0 \<le> le_val bs \<and> le_val bs < 256 ^ length bs"
proof (induction bs)
  case Nil
  show ?case by simp
next
  case (Cons b bs)
  have "0 \<le> uint b" "uint b < 256" using uint_bounded [of b] by simp_all
  with Cons show ?case by simp
qed

lemma byte_256: "(256 :: byte) = 0"
  by simp

lemma byte_of_int_add: "(word_of_int (uint b + 256 * x) :: byte) = b"
proof -
  have "(word_of_int (uint b + 256 * x) :: byte) = word_of_int (uint b) + word_of_int (256 * x)"
    by simp
  also have "(word_of_int (256 * x) :: byte) = 0"
    by (simp add: byte_256)
  finally show ?thesis by simp
qed

lemma le_bytes_le_val: "le_bytes (length bs) (le_val bs) = bs"
proof (induction bs)
  case Nil
  show ?case by simp
next
  case (Cons b bs)
  have "0 \<le> uint b" "uint b < 256" using uint_bounded [of b] by simp_all
  then have "(uint b + 256 * le_val bs) div 256 = le_val bs" by simp
  with Cons show ?case by (simp add: byte_of_int_add del: of_int_add of_int_mult)
qed

lemma le_bytes_shift: "le_bytes n (v - 256 ^ n) = le_bytes n v"
proof (induction n arbitrary: v)
  case 0
  show ?case by simp
next
  case (Suc n)
  have b: "(v - 256 * 256 ^ n) div 256 = v div 256 - 256 ^ n"
  proof -
    have "v - 256 * 256 ^ n = v + (- (256 ^ n)) * 256" by simp
    then show ?thesis by simp
  qed
  show ?case by (simp add: b Suc.IH byte_256)
qed

section \<open>Properties of the cursors\<close>

text \<open>
  A little-endian store inside the view followed by a little-endian load at the same
  offset gives the stored value modulo \<open>256 ^ n\<close>.
\<close>

lemma setUint_getUint:
  assumes "in_view d off n"
  shows "DataView_setUint n True d off v
           = Inr (take (nat off) d @ le_bytes n v @ drop (nat off + n) d)"
    and "DataView_getUint n True (take (nat off) d @ le_bytes n v @ drop (nat off + n) d) off
           = Inr (v mod 256 ^ n)"
proof -
  from assms have o: "0 \<le> off" "nat off + n \<le> length d"
    unfolding in_view_def by linarith+
  let ?d' = "take (nat off) d @ le_bytes n v @ drop (nat off + n) d"
  from assms show "DataView_setUint n True d off v = Inr ?d'"
    by (simp add: DataView_setUint_def)
  from o have len: "length ?d' = length d" by simp
  with assms have iv: "in_view ?d' off n" by (simp add: in_view_def)
  from o have "drop (nat off) ?d' = le_bytes n v @ drop (nat off + n) d" by simp
  then have "take n (drop (nat off) ?d') = le_bytes n v" by simp
  with iv show "DataView_getUint n True ?d' off = Inr (v mod 256 ^ n)"
    by (simp add: DataView_getUint_def le_val_le_bytes del: take_append drop_append)
qed

lemma roundtrip8:
  assumes "0 \<le> off" "off + 1 \<le> int (length buf)" "0 \<le> v" "v < 2 ^ 8"
  shows "fst (readUint8 (Reader_new (wr_buffer (writeUint8 (Writer_new buf off) v)) off)) = Some v"
  using assms by (simp add: readUint8_def Reader_new_def Writer_new_def writeUint8_def uint_byte_of_int)

lemma roundtrip16:
  assumes "0 \<le> off" "off + 2 \<le> int (length buf)" "0 \<le> v" "v < 2 ^ 16"
  shows "case writeUint16 (Writer_new buf off) v of
           Inl e \<Rightarrow> False
         | Inr w \<Rightarrow> fst (readUint16 (Reader_new (wr_buffer w) off)) = Inr v"
proof -
  from assms have iv: "in_view buf off 2" by (simp add: in_view_def)
  from assms have v: "v mod 256 ^ 2 = v" by simp
  from assms have lt: "off < int (length buf)" by simp
  from setUint_getUint [OF iv, of v] v assms(1) lt show ?thesis
    by (simp add: writeUint16_def readUint16_def Reader_new_def Writer_new_def)
qed

lemma roundtrip32:
  assumes "0 \<le> off" "off + 4 \<le> int (length buf)" "0 \<le> v" "v < 2 ^ 32"
  shows "case writeUint32 (Writer_new buf off) v of
           Inl e \<Rightarrow> False
         | Inr w \<Rightarrow> fst (readUint32 (Reader_new (wr_buffer w) off)) = Inr v"
proof -
  from assms have iv: "in_view buf off 4" by (simp add: in_view_def)
  from assms have v: "v mod 256 ^ 4 = v" by simp
  from assms have lt: "off < int (length buf)" by simp
  from setUint_getUint [OF iv, of v] v assms(1) lt show ?thesis
    by (simp add: writeUint32_def readUint32_def Reader_new_def Writer_new_def)
qed

lemma roundtrip64:
  assumes "0 \<le> off" "off + 8 \<le> int (length buf)" "0 \<le> v" "v < 2 ^ 64"
  shows "case writeUint64 (Writer_new buf off) v of
           Inl e \<Rightarrow> False
         | Inr w \<Rightarrow> fst (readUint64 (Reader_new (wr_buffer w) off)) = Inr v"
proof -
  from assms have iv: "in_view buf off 8" by (simp add: in_view_def)
  from assms have v: "v mod 256 ^ 8 = v" by simp
  from assms have lt: "off < int (length buf)" by simp
  from setUint_getUint [OF iv, of v] v assms(1) lt show ?thesis
    by (simp add: writeUint64_def readUint64_def Reader_new_def Writer_new_def)
qed

text \<open>
  C6. Round trip, for the widths 8, 16, 32 and 64: at an offset \<open>off \<ge> 0\<close> with room for
  the value, writing a representable unsigned \<open>v\<close> with \<open>writeUintK\<close> never throws, and a
  reader constructed over the written buffer at the same offset reads \<open>v\<close> back with
  \<open>readUintK\<close>.
\<close>

theorem write_read_roundtrip:
  assumes "0 \<le> off"
  shows "(off + 1 \<le> int (length buf) \<and> 0 \<le> v \<and> v < 2 ^ 8 \<longrightarrow>
            fst (readUint8 (Reader_new (wr_buffer (writeUint8 (Writer_new buf off) v)) off)) = Some v)
       \<and> (off + 2 \<le> int (length buf) \<and> 0 \<le> v \<and> v < 2 ^ 16 \<longrightarrow>
            (case writeUint16 (Writer_new buf off) v of
               Inl e \<Rightarrow> False
             | Inr w \<Rightarrow> fst (readUint16 (Reader_new (wr_buffer w) off)) = Inr v))
       \<and> (off + 4 \<le> int (length buf) \<and> 0 \<le> v \<and> v < 2 ^ 32 \<longrightarrow>
            (case writeUint32 (Writer_new buf off) v of
               Inl e \<Rightarrow> False
             | Inr w \<Rightarrow> fst (readUint32 (Reader_new (wr_buffer w) off)) = Inr v))
       \<and> (off + 8 \<le> int (length buf) \<and> 0 \<le> v \<and> v < 2 ^ 64 \<longrightarrow>
            (case writeUint64 (Writer_new buf off) v of
               Inl e \<Rightarrow> False
             | Inr w \<Rightarrow> fst (readUint64 (Reader_new (wr_buffer w) off)) = Inr v))"
  using roundtrip8 [OF assms] roundtrip16 [OF assms] roundtrip32 [OF assms] roundtrip64 [OF assms]
  by blast

theorem write_read_roundtrip_witness:
  "(0::int) \<le> 1
   \<and> (1::int) + 8 \<le> int (length [9, 9, 9, 9, 9, 9, 9, 9, 9, 9 :: byte])
   \<and> (0::int) \<le> 52 \<and> (52::int) < 2 ^ 8
   \<and> fst (readUint8 (Reader_new (wr_buffer (writeUint8 (Writer_new [9, 9, 9, 9, 9, 9, 9, 9, 9, 9] 1) 52)) 1))
       = Some 52
   \<and> writeUint64 (Writer_new [9, 9, 9, 9, 9, 9, 9, 9, 9, 9] 1) 52
       = Inr \<lparr>wr_buffer = [9, 52, 0, 0, 0, 0, 0, 0, 0, 9], wr_offset = 9, wr_size = 10\<rparr>
   \<and> fst (readUint64 (Reader_new [9, 52, 0, 0, 0, 0, 0, 0, 0, 9] 1)) = Inr 52"
proof -
  have w: "writeUint64 (Writer_new [9, 9, 9, 9, 9, 9, 9, 9, 9, 9] 1) 52
       = Inr \<lparr>wr_buffer = [9, 52, 0, 0, 0, 0, 0, 0, 0, 9], wr_offset = 9, wr_size = 10\<rparr>"
    by (simp add: writeUint64_def Writer_new_def DataView_setUint_def in_view_def numeral_eq_Suc)
  from write_read_roundtrip [of 1 "[9, 9, 9, 9, 9, 9, 9, 9, 9, 9]" 52] w show ?thesis
    by simp
qed

text \<open>
  Writes keep the buffer's length; \<open>writeBuffer\<close> moves the offset by the number of bytes
  from \<open>index\<close> to the end of its argument.
\<close>

lemma writeUint8_length [simp]: "length (wr_buffer (writeUint8 w v)) = length (wr_buffer w)"
  by (simp add: writeUint8_def)

lemma writeUint8_offset [simp]: "wr_offset (writeUint8 w v) = wr_offset w + 1"
  by (simp add: writeUint8_def)

lemma writeBuffer_effect:
  "length (wr_buffer (writeBuffer w buf i)) = length (wr_buffer w)
   \<and> wr_offset (writeBuffer w buf i) = wr_offset w + max 0 (int (length buf) - i)"
proof (induction w buf i rule: writeBuffer.induct)
  case (1 w buf i)
  show ?case
  proof (cases "i < int (length buf)")
    case True
    from "1.IH" [OF True] True show ?thesis
      by (subst (1 2) writeBuffer.simps) simp
  next
    case False
    then show ?thesis by (subst (1 2) writeBuffer.simps) simp
  qed
qed

text \<open>
  C4. As stated (both constructors reset an offset that is negative or not below the
  buffer's length to 0) the claim fails for the writer, whose constructor has no such
  test: over a one-byte buffer the offsets 1 and -1 are stored as they are.
\<close>

theorem Writer_new_keeps_offset_counterexample:
  "wr_offset (Writer_new [0] 1) = 1
   \<and> int (length [0 :: byte]) \<le> 1
   \<and> wr_offset (Writer_new [0] (- 1)) = - 1"
  by (simp add: Writer_new_def)

text \<open>
  C4, amended. The reader's constructor resets an offset that is negative or greater
  than the buffer's length to 0 and keeps an offset \<open>0 \<le> off < length\<close>; the writer's
  constructor stores every offset unchanged. Both expose the buffer's length as \<open>size\<close>,
  and neither raises an error (the constructors are total functions here).
\<close>

theorem cursor_new_offset:
  "(off < 0 \<or> int (length buf) < off \<longrightarrow> rd_offset (Reader_new buf off) = 0)
   \<and> (0 \<le> off \<and> off < int (length buf) \<longrightarrow> rd_offset (Reader_new buf off) = off)
   \<and> wr_offset (Writer_new buf off) = off
   \<and> rd_size (Reader_new buf off) = length buf
   \<and> wr_size (Writer_new buf off) = length buf"
  by (simp add: Reader_new_def Writer_new_def)

theorem cursor_new_offset_witness:
  "(5 :: int) > int (length [7, 8 :: byte])
   \<and> rd_offset (Reader_new [7, 8] 5) = 0
   \<and> (- 3 :: int) < 0
   \<and> rd_offset (Reader_new [7, 8] (- 3)) = 0
   \<and> (0 :: int) \<le> 1 \<and> (1 :: int) < int (length [7, 8 :: byte])
   \<and> rd_offset (Reader_new [7, 8] 1) = 1
   \<and> wr_offset (Writer_new [7, 8] 5) = 5"
  using cursor_new_offset [of 5 "[7, 8]"] cursor_new_offset [of "- 3" "[7, 8]"]
    cursor_new_offset [of 1 "[7, 8]"]
  by simp

text \<open>
  C9. A cursor constructed at an offset \<open>o \<le> length\<close> and used for one access of \<open>n\<close>
  bytes should stand at \<open>o + n\<close>. For the reader this fails at \<open>o = length\<close>: over the
  one-byte buffer \<open>[0]\<close> the constructor turns the offset 1 into 0, and after
  \<open>readBuffer(0)\<close> the offset is 0, not 1. The writer built the same way stays at 1.
\<close>

theorem Reader_new_at_length:
  "rd_offset (Reader_new [0] 1) = 0
   \<and> readBuffer (Reader_new [0] 1) 0 = ([], \<lparr>rd_buffer = [0], rd_offset = 0, rd_size = 1\<rparr>)
   \<and> wr_offset (writeBuffer (Writer_new [0] 1) [] 0) = 1"
  by (simp add: Reader_new_def Writer_new_def readBuffer_def subarray_def writeBuffer.simps)

text \<open>
  At every other offset of the buffer each operation moves the cursor by its width.
\<close>

lemma cursor_advance:
  assumes "0 \<le> off"
  shows "off < int (length buf) \<Longrightarrow> rd_offset (snd (readUint8 (Reader_new buf off))) = off + 1"
    and "off < int (length buf) \<Longrightarrow> rd_offset (snd (readUint16 (Reader_new buf off))) = off + 2"
    and "off < int (length buf) \<Longrightarrow> rd_offset (snd (readUint32 (Reader_new buf off))) = off + 4"
    and "off < int (length buf) \<Longrightarrow> rd_offset (snd (readUint64 (Reader_new buf off))) = off + 8"
    and "off < int (length buf) \<Longrightarrow> rd_offset (snd (readBuffer (Reader_new buf off) n)) = off + n"
    and "wr_offset (writeUint8 (Writer_new buf off) v) = off + 1"
    and "off + 2 \<le> int (length buf) \<Longrightarrow>
           \<exists>w. writeUint16 (Writer_new buf off) v = Inr w \<and> wr_offset w = off + 2"
    and "off + 4 \<le> int (length buf) \<Longrightarrow>
           \<exists>w. writeUint32 (Writer_new buf off) v = Inr w \<and> wr_offset w = off + 4"
    and "off + 8 \<le> int (length buf) \<Longrightarrow>
           \<exists>w. writeUint64 (Writer_new buf off) v = Inr w \<and> wr_offset w = off + 8"
    and "i \<le> int (length src) \<Longrightarrow>
           wr_offset (writeBuffer (Writer_new buf off) src i) = off + (int (length src) - i)"
  using assms
  by (simp_all add: Reader_new_def Writer_new_def readUint8_def readUint16_def readUint32_def
        readUint64_def readBuffer_def writeUint16_def writeUint32_def
        writeUint64_def DataView_setUint_def in_view_def writeBuffer_effect Let_def)

text \<open>
  C10. As stated (the result has fewer than \<open>n\<close> bytes whenever \<open>p + n\<close> exceeds the
  buffer's length) the claim fails for \<open>n = 0\<close> at an offset already past the end: after
  \<open>readBuffer(5)\<close> on a four-byte buffer the offset is 5, and \<open>readBuffer(0)\<close> there
  returns no byte, which is not fewer than 0.
\<close>

theorem readBuffer_zero_past_end_counterexample:
  "snd (readBuffer (Reader_new [1, 2, 3, 4] 0) 5)
     = \<lparr>rd_buffer = [1, 2, 3, 4], rd_offset = 5, rd_size = 4\<rparr>
   \<and> readBuffer \<lparr>rd_buffer = [1, 2, 3, 4], rd_offset = 5, rd_size = 4\<rparr> 0
       = ([], \<lparr>rd_buffer = [1, 2, 3, 4], rd_offset = 5, rd_size = 4\<rparr>)
   \<and> int (length [1, 2, 3, 4 :: byte]) < 5 + 0
   \<and> \<not> int (length ([] :: bytes)) < 0"
  by (simp add: readBuffer_def Reader_new_def subarray_def)

text \<open>
  C10, amended. For a reader at an offset \<open>p \<ge> 0\<close> and a size \<open>n \<ge> 0\<close>, \<open>readBuffer\<close>
  never fails: it returns the bytes from index \<open>p\<close> up to \<open>min (p + n) length\<close>, fewer
  than \<open>n\<close> of them whenever \<open>p + n\<close> exceeds the length and \<open>n > 0\<close>, and it moves the
  offset by exactly \<open>n\<close>, beyond the end of the buffer if need be.
\<close>

theorem readBuffer_never_fails:
  assumes "0 \<le> rd_offset r" and "0 \<le> n"
  shows "readBuffer r n =
           (take (nat (min (rd_offset r + n) (int (length (rd_buffer r))) - rd_offset r))
                 (drop (nat (rd_offset r)) (rd_buffer r)),
            r\<lparr>rd_offset := rd_offset r + n\<rparr>)
         \<and> (int (length (rd_buffer r)) < rd_offset r + n \<and> 0 < n \<longrightarrow>
              int (length (fst (readBuffer r n))) < n)"
proof -
  let ?p = "rd_offset r" and ?len = "int (length (rd_buffer r))"
  let ?res = "take (nat (min (?p + n) ?len - ?p)) (drop (nat ?p) (rd_buffer r))"
  have sub: "subarray (rd_buffer r) ?p (?p + n) = ?res"
  proof (cases "?p \<le> ?len")
    case True
    with assms have "max (min (?p + n) ?len - min ?p ?len) 0 = min (?p + n) ?len - ?p"
      and "min ?p ?len = ?p" by simp_all
    with assms show ?thesis by (simp add: subarray_def Let_def)
  next
    case False
    with assms have "nat ?len \<le> nat ?p" by simp
    then have "drop (nat ?p) (rd_buffer r) = []" by simp
    moreover from False assms have "drop (nat (min ?p ?len)) (rd_buffer r) = []" by simp
    ultimately show ?thesis using assms by (simp add: subarray_def Let_def)
  qed
  then have eq: "readBuffer r n = (?res, r\<lparr>rd_offset := ?p + n\<rparr>)"
    by (simp add: readBuffer_def Let_def)
  have "?len < ?p + n \<and> 0 < n \<longrightarrow> int (length ?res) < n"
    using assms by auto
  with eq show ?thesis by simp
qed

theorem readBuffer_never_fails_witness:
  "(0 :: int) \<le> rd_offset \<lparr>rd_buffer = [1, 2, 3, 4], rd_offset = 3, rd_size = 4\<rparr>
   \<and> (0 :: int) \<le> 5
   \<and> readBuffer \<lparr>rd_buffer = [1, 2, 3, 4], rd_offset = 3, rd_size = 4\<rparr> 5
       = ([4], \<lparr>rd_buffer = [1, 2, 3, 4], rd_offset = 8, rd_size = 4\<rparr>)
   \<and> int (length [1, 2, 3, 4 :: byte]) < 3 + 5
   \<and> int (length (fst (readBuffer \<lparr>rd_buffer = [1, 2, 3, 4], rd_offset = 3, rd_size = 4\<rparr> 5))) < 5"
  using readBuffer_never_fails [of "\<lparr>rd_buffer = [1, 2, 3, 4], rd_offset = 3, rd_size = 4\<rparr>" 5]
  by simp

section \<open>Properties of the template\<close>

text \<open>
  \<open>byteLength\<close> is the sum of the fields' data lengths, and no write changes the length
  of the allocated buffer.
\<close>

lemma foldl_add_sum_list: "foldl (\<lambda>prev cur. prev + cur) (a :: nat) xs = a + sum_list xs"
  by (induction xs arbitrary: a) simp_all

lemma Template_new_byteLength:
  "tpl_byteLength (Template_new fs) = sum_list (map (\<lambda>f. u8_byteLength (fld_data f)) fs)"
  by (simp add: Template_new_def foldl_add_sum_list)

lemma setUint_length:
  "DataView_setUint n le d off v = Inr d' \<Longrightarrow> length d' = length d"
  unfolding DataView_setUint_def in_view_def
  by (auto split: if_splits)

lemma writeUint_length:
  "writeUint16 w v = Inr w' \<Longrightarrow> length (wr_buffer w') = length (wr_buffer w)"
  "writeUint32 w v = Inr w' \<Longrightarrow> length (wr_buffer w') = length (wr_buffer w)"
  "writeUint64 w v = Inr w' \<Longrightarrow> length (wr_buffer w') = length (wr_buffer w)"
  by (auto simp: writeUint16_def writeUint32_def writeUint64_def
        split: sum.splits dest: setUint_length)

lemma toBuffer_field_length:
  "toBuffer_field w f = Inr w' \<Longrightarrow> length (wr_buffer w') = length (wr_buffer w)"
  by (cases "fld_type f")
     (auto simp: toBuffer_field_def writeBuffer_effect split: sum.splits dest: writeUint_length)

lemma toBuffer_loop_length:
  "toBuffer_loop w fs = Inr w' \<Longrightarrow> length (wr_buffer w') = length (wr_buffer w)"
proof (induction fs arbitrary: w)
  case Nil
  then show ?case by simp
next
  case (Cons f fs)
  from Cons.prems obtain w1 where
    s: "toBuffer_field w f = Inr w1" and r: "toBuffer_loop w1 fs = Inr w'"
    by (auto split: sum.splits)
  from Cons.IH [OF r] toBuffer_field_length [OF s] show ?case by simp
qed

lemma toBuffer_length:
  "toBuffer mem t = Inr b \<Longrightarrow> length b = tpl_byteLength t"
proof -
  assume "toBuffer mem t = Inr b"
  then obtain w where
    "toBuffer_loop (Writer_new (allocUnsafe mem (tpl_byteLength t)) 0) (tpl_fields t) = Inr w"
    and "b = wr_buffer w"
    by (auto simp: toBuffer_def split: sum.splits)
  with toBuffer_loop_length [of _ "tpl_fields t" w] show ?thesis
    by (simp add: Writer_new_def allocUnsafe_def)
qed

text \<open>
  An integer field: the getter reads the first \<open>n\<close> bytes of the underlying buffer as a
  signed big-endian number, and the little-endian write of that number stores the same
  bytes in reverse order.
\<close>

lemma le_bytes_signed:
  assumes "length bs = n"
  shows "le_bytes n (if le_val bs < 2 ^ (8 * n - 1) then le_val bs else le_val bs - 2 ^ (8 * n)) = bs"
proof -
  have "(2::int) ^ (8 * n) = 256 ^ n" by (simp add: power_mult)
  with le_bytes_shift [of n "le_val bs"] le_bytes_le_val [of bs] assms show ?thesis by simp
qed

lemma getInt_big_endian:
  assumes "n \<le> length view"
  shows "\<exists>v. DataView_getInt n False view 0 = Inr v \<and> le_bytes n v = rev (take n view)"
proof -
  from assms have iv: "in_view view 0 n" by (simp add: in_view_def)
  from assms have "length (rev (take n view)) = n" by simp
  from le_bytes_signed [OF this] iv show ?thesis
    by (simp add: DataView_getInt_def DataView_getUint_def)
qed

lemma writeUint8_splice:
  assumes "0 \<le> wr_offset w" "wr_offset w + 1 \<le> int (length (wr_buffer w))"
  shows "writeUint8 w v =
           w\<lparr>wr_buffer := take (nat (wr_offset w)) (wr_buffer w) @ le_bytes 1 v
                           @ drop (nat (wr_offset w) + 1) (wr_buffer w),
             wr_offset := wr_offset w + 1\<rparr>"
proof -
  from assms have "nat (wr_offset w) < length (wr_buffer w)" by simp
  from upd_conv_take_nth_drop [OF this, of "word_of_int v"] assms show ?thesis
    by (simp add: writeUint8_def)
qed

lemma toBuffer_field_int:
  assumes ty: "fld_type f \<noteq> buffer"
    and big: "declared_width f \<le> length (u8_buffer (fld_data f))"
    and off: "0 \<le> wr_offset w"
    and room: "wr_offset w + int (declared_width f) \<le> int (length (wr_buffer w))"
  shows "toBuffer_field w f =
           Inr (w\<lparr>wr_buffer := take (nat (wr_offset w)) (wr_buffer w)
                      @ rev (take (declared_width f) (u8_buffer (fld_data f)))
                      @ drop (nat (wr_offset w) + declared_width f) (wr_buffer w),
                   wr_offset := wr_offset w + int (declared_width f)\<rparr>)"
proof -
  let ?n = "declared_width f"
  from getInt_big_endian [OF big] obtain v where
    g: "DataView_getInt ?n False (u8_buffer (fld_data f)) 0 = Inr v"
    and e: "le_bytes ?n v = rev (take ?n (u8_buffer (fld_data f)))" by blast
  from off room have iv: "in_view (wr_buffer w) (wr_offset w) ?n" by (simp add: in_view_def)
  show ?thesis
  proof (cases "fld_type f")
    case buffer
    with ty show ?thesis by simp
  next
    case uint8
    then have n: "?n = 1" by (simp add: declared_width_def)
    from off room n have r1: "wr_offset w + 1 \<le> int (length (wr_buffer w))" by simp
    from g uint8 n writeUint8_splice [OF off r1, of v] show ?thesis
      unfolding e [symmetric] by (simp add: toBuffer_field_def)
  next
    case uint16
    then have n: "?n = 2" by (simp add: declared_width_def)
    from g uint16 n iv show ?thesis
      unfolding e [symmetric] by (simp add: toBuffer_field_def writeUint16_def DataView_setUint_def)
  next
    case uint32
    then have n: "?n = 4" by (simp add: declared_width_def)
    from g uint32 n iv show ?thesis
      unfolding e [symmetric] by (simp add: toBuffer_field_def writeUint32_def DataView_setUint_def)
  next
    case uint64
    then have n: "?n = 8" by (simp add: declared_width_def)
    from g uint64 n iv show ?thesis
      unfolding e [symmetric] by (simp add: toBuffer_field_def writeUint64_def DataView_setUint_def)
  qed
qed

text \<open>
  When every field's data has exactly its declared width, the writes stay inside the
  allocated buffer and \<open>toBuffer\<close> returns.
\<close>

lemma toBuffer_field_exact:
  assumes wf: "u8_wf (fld_data f)"
    and ex: "u8_byteLength (fld_data f) = declared_width f"
    and off: "0 \<le> wr_offset w"
    and room: "wr_offset w + int (declared_width f) \<le> int (length (wr_buffer w))"
  shows "\<exists>w'. toBuffer_field w f = Inr w'
            \<and> wr_offset w' = wr_offset w + int (declared_width f)
            \<and> length (wr_buffer w') = length (wr_buffer w)"
proof (cases "fld_type f = buffer")
  case True
  from wf ex have "length (u8_bytes (fld_data f)) = declared_width f"
    by (simp add: u8_bytes_def u8_wf_def)
  with True show ?thesis
    by (simp add: toBuffer_field_def writeBuffer_effect)
next
  case False
  from wf ex have big: "declared_width f \<le> length (u8_buffer (fld_data f))"
    by (simp add: u8_wf_def)
  from off room have "nat (wr_offset w) + declared_width f \<le> length (wr_buffer w)" by linarith
  with toBuffer_field_int [OF False big off room] big off show ?thesis by simp
qed

lemma toBuffer_loop_exact:
  assumes "\<forall>f \<in> set fs. u8_wf (fld_data f) \<and> u8_byteLength (fld_data f) = declared_width f"
    and "0 \<le> wr_offset w"
    and "wr_offset w + int (sum_list (map declared_width fs)) \<le> int (length (wr_buffer w))"
  shows "\<exists>w'. toBuffer_loop w fs = Inr w'"
  using assms
proof (induction fs arbitrary: w)
  case Nil
  show ?case by simp
next
  case (Cons f fs)
  from Cons.prems have wf: "u8_wf (fld_data f)"
    and ex: "u8_byteLength (fld_data f) = declared_width f" by simp_all
  from Cons.prems have room: "wr_offset w + int (declared_width f) \<le> int (length (wr_buffer w))"
    by simp
  from toBuffer_field_exact [OF wf ex Cons.prems(2) room] obtain w1 where
    s: "toBuffer_field w f = Inr w1"
    and o: "wr_offset w1 = wr_offset w + int (declared_width f)"
    and l: "length (wr_buffer w1) = length (wr_buffer w)" by blast
  from Cons.prems have rest: "\<forall>f \<in> set fs. u8_wf (fld_data f) \<and> u8_byteLength (fld_data f) = declared_width f"
    by simp
  from Cons.prems(2) o have o1: "0 \<le> wr_offset w1" by simp
  from Cons.prems(3) o l have r1:
    "wr_offset w1 + int (sum_list (map declared_width fs)) \<le> int (length (wr_buffer w1))"
    by simp
  from Cons.IH [OF rest o1 r1] s show ?case by simp
qed

lemma toBuffer_exact:
  assumes "\<forall>f \<in> set fs. u8_wf (fld_data f) \<and> u8_byteLength (fld_data f) = declared_width f"
  shows "tpl_byteLength (Template_new fs) = sum_list (map declared_width fs)"
    and "\<exists>b. toBuffer mem (Template_new fs) = Inr b"
proof -
  have "tpl_byteLength (Template_new fs) = sum_list (map (\<lambda>f. u8_byteLength (fld_data f)) fs)"
    by (rule Template_new_byteLength)
  also from assms have "map (\<lambda>f. u8_byteLength (fld_data f)) fs = map declared_width fs" by simp
  finally show len: "tpl_byteLength (Template_new fs) = sum_list (map declared_width fs)" .
  let ?w = "Writer_new (allocUnsafe mem (tpl_byteLength (Template_new fs))) 0"
  from len have "wr_offset ?w + int (sum_list (map declared_width fs)) \<le> int (length (wr_buffer ?w))"
    by (simp add: Writer_new_def allocUnsafe_def)
  moreover have "0 \<le> wr_offset ?w" by (simp add: Writer_new_def)
  ultimately obtain w' where "toBuffer_loop ?w fs = Inr w'"
    using toBuffer_loop_exact [OF assms] by blast
  then show "\<exists>b. toBuffer mem (Template_new fs) = Inr b"
    by (simp add: toBuffer_def Template_new_def)
qed

text \<open>
  C2. As stated (for every list of fields \<open>byteLength\<close> is the sum of the declared
  widths) the claim fails for a \<open>uint8\<close> field that carries two bytes of data:
  \<open>byteLength\<close> is 2, the declared width 1.
\<close>

theorem Template_byteLength_counterexample:
  "tpl_byteLength (Template_new [\<lparr>fld_type = uint8, fld_data = Uint8Array_of [1, 2]\<rparr>]) = 2
   \<and> sum_list (map declared_width [\<lparr>fld_type = uint8, fld_data = Uint8Array_of [1, 2]\<rparr>]) = 1"
  by (simp add: Template_new_def Uint8Array_of_def declared_width_def)

text \<open>
  C2, amended. \<open>byteLength\<close> is the sum of the byte lengths of the fields' data; it is
  the sum of the declared widths when every field's data has exactly its declared width.
  Whenever \<open>toBuffer\<close> returns a buffer, the buffer has exactly \<open>byteLength\<close> bytes, and it
  does return one when every field's data has exactly its declared width.
\<close>

theorem Template_byteLength_toBuffer:
  "tpl_byteLength (Template_new fs) = sum_list (map (\<lambda>f. u8_byteLength (fld_data f)) fs)
   \<and> ((\<forall>f \<in> set fs. u8_byteLength (fld_data f) = declared_width f) \<longrightarrow>
        tpl_byteLength (Template_new fs) = sum_list (map declared_width fs))
   \<and> (\<forall>b. toBuffer mem (Template_new fs) = Inr b \<longrightarrow> length b = tpl_byteLength (Template_new fs))
   \<and> ((\<forall>f \<in> set fs. u8_wf (fld_data f) \<and> u8_byteLength (fld_data f) = declared_width f) \<longrightarrow>
        (\<exists>b. toBuffer mem (Template_new fs) = Inr b))"
proof (intro conjI impI allI)
  show "tpl_byteLength (Template_new fs) = sum_list (map (\<lambda>f. u8_byteLength (fld_data f)) fs)"
    by (rule Template_new_byteLength)
next
  assume a: "\<forall>f \<in> set fs. u8_byteLength (fld_data f) = declared_width f"
  have "tpl_byteLength (Template_new fs) = sum_list (map (\<lambda>f. u8_byteLength (fld_data f)) fs)"
    by (rule Template_new_byteLength)
  also from a have "map (\<lambda>f. u8_byteLength (fld_data f)) fs = map declared_width fs" by simp
  finally show "tpl_byteLength (Template_new fs) = sum_list (map declared_width fs)" .
next
  fix b
  assume "toBuffer mem (Template_new fs) = Inr b"
  then show "length b = tpl_byteLength (Template_new fs)" by (rule toBuffer_length)
next
  assume "\<forall>f \<in> set fs. u8_wf (fld_data f) \<and> u8_byteLength (fld_data f) = declared_width f"
  then show "\<exists>b. toBuffer mem (Template_new fs) = Inr b" by (rule toBuffer_exact(2))
qed

theorem Template_byteLength_toBuffer_witness:
  "list_all (\<lambda>f. u8_wf (fld_data f) \<and> u8_byteLength (fld_data f) = declared_width f) spec_fields
   \<and> tpl_byteLength (Template_new spec_fields) = 15
   \<and> sum_list (map declared_width spec_fields) = 15
   \<and> toBuffer zero_memory (Template_new spec_fields)
       = Inr [1, 2, 3, 4, 5, 6, 7, 8, 9, 10, 11, 12, 13, 14, 15]
   \<and> length [1, 2, 3, 4, 5, 6, 7, 8, 9, 10, 11, 12, 13, 14, 15 :: byte]
       = tpl_byteLength (Template_new spec_fields)"
proof -
  have h: "\<forall>f \<in> set spec_fields.
             u8_wf (fld_data f) \<and> u8_byteLength (fld_data f) = declared_width f"
    by (simp add: spec_fields_def Uint8Array_of_def declared_width_def u8_wf_def)
  then have h': "\<forall>f \<in> set spec_fields. u8_byteLength (fld_data f) = declared_width f" by blast
  have s: "sum_list (map declared_width spec_fields) = 15"
    by (simp add: spec_fields_def Uint8Array_of_def declared_width_def)
  have b: "toBuffer zero_memory (Template_new spec_fields)
             = Inr [1, 2, 3, 4, 5, 6, 7, 8, 9, 10, 11, 12, 13, 14, 15]"
    by code_simp
  note T = Template_byteLength_toBuffer [of spec_fields zero_memory]
  from T h' have "tpl_byteLength (Template_new spec_fields) = sum_list (map declared_width spec_fields)"
    by blast
  with s have bl: "tpl_byteLength (Template_new spec_fields) = 15" by (simp only:)
  from T b have l: "length [1, 2, 3, 4, 5, 6, 7, 8, 9, 10, 11, 12, 13, 14, 15 :: byte]
       = tpl_byteLength (Template_new spec_fields)" by blast
  from h have la: "list_all (\<lambda>f. u8_wf (fld_data f) \<and> u8_byteLength (fld_data f) = declared_width f) spec_fields"
    by (simp only: list_all_iff)
  from la bl s b l show ?thesis by (intro conjI)
qed

text \<open>
  A write never touches the bytes before the writer's offset. So when every field
  carries at least its declared width of data, the loop of \<open>toBuffer\<close> runs to its end,
  moves the offset by the declared widths, and leaves what it has written in place.
\<close>

lemma take_prefix_mono:
  "take m xs = take m ys \<Longrightarrow> n \<le> m \<Longrightarrow> take n xs = take n ys"
proof -
  assume e: "take m xs = take m ys" and le: "n \<le> m"
  from le have "take n xs = take n (take m xs)" by (simp add: min_absorb1)
  also from e have "\<dots> = take n (take m ys)" by simp
  also from le have "\<dots> = take n ys" by (simp add: min_absorb1)
  finally show ?thesis .
qed

lemma writeUint8_prefix:
  "take (nat (wr_offset w)) (wr_buffer (writeUint8 w v)) = take (nat (wr_offset w)) (wr_buffer w)"
  by (simp add: writeUint8_def)

lemma writeBuffer_prefix:
  "0 \<le> wr_offset w \<Longrightarrow>
     take (nat (wr_offset w)) (wr_buffer (writeBuffer w buf i)) = take (nat (wr_offset w)) (wr_buffer w)"
proof (induction w buf i rule: writeBuffer.induct)
  case (1 w buf i)
  show ?case
  proof (cases "i < int (length buf)")
    case False
    then show ?thesis by (subst writeBuffer.simps) simp
  next
    case True
    let ?w1 = "writeUint8 w (if 0 \<le> i then uint (buf ! nat i) else 0)"
    from "1.prems" have o1: "0 \<le> wr_offset ?w1" by simp
    from "1.IH" [OF True o1]
    have "take (nat (wr_offset ?w1)) (wr_buffer (writeBuffer ?w1 buf (i + 1)))
            = take (nat (wr_offset ?w1)) (wr_buffer ?w1)" .
    moreover from "1.prems" have "nat (wr_offset w) \<le> nat (wr_offset ?w1)" by simp
    ultimately have "take (nat (wr_offset w)) (wr_buffer (writeBuffer ?w1 buf (i + 1)))
            = take (nat (wr_offset w)) (wr_buffer ?w1)" by (rule take_prefix_mono)
    also have "\<dots> = take (nat (wr_offset w)) (wr_buffer w)" by (rule writeUint8_prefix)
    finally show ?thesis using True by (subst writeBuffer.simps) simp
  qed
qed

lemma toBuffer_field_step:
  assumes wf: "u8_wf (fld_data f)"
    and le: "declared_width f \<le> u8_byteLength (fld_data f)"
    and off: "0 \<le> wr_offset w"
    and room: "wr_offset w + int (declared_width f) \<le> int (length (wr_buffer w))"
  shows "\<exists>w'. toBuffer_field w f = Inr w'
            \<and> wr_offset w' = wr_offset w + int (declared_width f)
            \<and> length (wr_buffer w') = length (wr_buffer w)
            \<and> take (nat (wr_offset w)) (wr_buffer w') = take (nat (wr_offset w)) (wr_buffer w)"
proof (cases "fld_type f = buffer")
  case True
  from wf have "length (u8_bytes (fld_data f)) = u8_byteLength (fld_data f)"
    by (simp add: u8_bytes_def u8_wf_def)
  moreover from True have "declared_width f = u8_byteLength (fld_data f)"
    by (simp add: declared_width_def)
  ultimately show ?thesis using True off
    by (simp add: toBuffer_field_def writeBuffer_effect writeBuffer_prefix)
next
  case False
  from wf le have big: "declared_width f \<le> length (u8_buffer (fld_data f))"
    by (simp add: u8_wf_def)
  from off room have "nat (wr_offset w) + declared_width f \<le> length (wr_buffer w)" by linarith
  with toBuffer_field_int [OF False big off room] big off show ?thesis by simp
qed

lemma toBuffer_loop_step:
  assumes "\<forall>g \<in> set fs. u8_wf (fld_data g) \<and> declared_width g \<le> u8_byteLength (fld_data g)"
    and "0 \<le> wr_offset w"
    and "wr_offset w + int (sum_list (map declared_width fs)) \<le> int (length (wr_buffer w))"
  shows "\<exists>w'. toBuffer_loop w fs = Inr w'
            \<and> wr_offset w' = wr_offset w + int (sum_list (map declared_width fs))
            \<and> length (wr_buffer w') = length (wr_buffer w)
            \<and> take (nat (wr_offset w)) (wr_buffer w') = take (nat (wr_offset w)) (wr_buffer w)"
  using assms
proof (induction fs arbitrary: w)
  case Nil
  show ?case by simp
next
  case (Cons f fs)
  from Cons.prems have wf: "u8_wf (fld_data f)"
    and le: "declared_width f \<le> u8_byteLength (fld_data f)" by simp_all
  from Cons.prems have room: "wr_offset w + int (declared_width f) \<le> int (length (wr_buffer w))"
    by simp
  from toBuffer_field_step [OF wf le Cons.prems(2) room] obtain w1 where
    s: "toBuffer_field w f = Inr w1"
    and o: "wr_offset w1 = wr_offset w + int (declared_width f)"
    and l: "length (wr_buffer w1) = length (wr_buffer w)"
    and p: "take (nat (wr_offset w)) (wr_buffer w1) = take (nat (wr_offset w)) (wr_buffer w)"
    by blast
  from Cons.prems have rest:
    "\<forall>g \<in> set fs. u8_wf (fld_data g) \<and> declared_width g \<le> u8_byteLength (fld_data g)" by simp
  from Cons.prems(2) o have o1: "0 \<le> wr_offset w1" by simp
  from Cons.prems(3) o l have r1:
    "wr_offset w1 + int (sum_list (map declared_width fs)) \<le> int (length (wr_buffer w1))" by simp
  from Cons.IH [OF rest o1 r1] obtain w' where
    r: "toBuffer_loop w1 fs = Inr w'"
    and o': "wr_offset w' = wr_offset w1 + int (sum_list (map declared_width fs))"
    and l': "length (wr_buffer w') = length (wr_buffer w1)"
    and p': "take (nat (wr_offset w1)) (wr_buffer w') = take (nat (wr_offset w1)) (wr_buffer w1)"
    by blast
  from Cons.prems(2) o have "nat (wr_offset w) \<le> nat (wr_offset w1)" by simp
  with p' have "take (nat (wr_offset w)) (wr_buffer w') = take (nat (wr_offset w)) (wr_buffer w1)"
    by (rule take_prefix_mono)
  with p have pp: "take (nat (wr_offset w)) (wr_buffer w') = take (nat (wr_offset w)) (wr_buffer w)"
    by simp
  from s r o o' l l' pp show ?case by simp
qed

lemma toBuffer_loop_append:
  "toBuffer_loop w (xs @ ys) =
     (case toBuffer_loop w xs of Inl e \<Rightarrow> Inl e | Inr w' \<Rightarrow> toBuffer_loop w' ys)"
  by (induction xs arbitrary: w) (simp_all split: sum.splits)

lemma take_drop_prefix:
  "take n (drop p (take (p + n) xs)) = take n (drop p xs)"
  by (simp add: drop_take)

text \<open>
  C5. As stated (the bytes emitted for a \<open>uint16\<close>, \<open>uint32\<close> or \<open>uint64\<close> field are the
  first bytes of its data unchanged) the claim fails: the template of the single
  \<open>uint16\<close> field with data \<open>[1, 2]\<close> renders to \<open>[2, 1]\<close>.
\<close>

theorem toBuffer_uint16_counterexample:
  "toBuffer zero_memory (Template_new [\<lparr>fld_type = uint16, fld_data = Uint8Array_of [1, 2]\<rparr>])
     = Inr [2, 1]
   \<and> take 2 (u8_bytes (Uint8Array_of [1, 2])) = [1, 2]"
  by code_simp

text \<open>
  C5, amended. In a template whose fields all carry at least their declared width of
  data, \<open>toBuffer\<close> returns a buffer, and for every integer-kind field of declared width
  \<open>N\<close> whose data starts at byte offset 0 of its buffer, it reads the first \<open>N\<close> bytes of
  the field's data as a big-endian signed integer and writes that integer little-endian:
  the \<open>N\<close> bytes emitted for the field, which follow the declared widths of the fields
  before it, are the first \<open>N\<close> bytes of its data in reverse order (for \<open>uint8\<close> the one
  byte itself).
\<close>

theorem toBuffer_reverses_field:
  assumes all: "\<forall>g \<in> set (pre @ f # post).
                  u8_wf (fld_data g) \<and> declared_width g \<le> u8_byteLength (fld_data g)"
    and ty: "fld_type f \<noteq> buffer"
    and zero: "u8_byteOffset (fld_data f) = 0"
  shows "\<exists>b v. toBuffer mem (Template_new (pre @ f # post)) = Inr b
           \<and> DataView_getInt (declared_width f) False (u8_bytes (fld_data f)) 0 = Inr v
           \<and> take (declared_width f) (drop (sum_list (map declared_width pre)) b)
               = le_bytes (declared_width f) v
           \<and> le_bytes (declared_width f) v
               = rev (take (declared_width f) (u8_bytes (fld_data f)))"
proof -
  let ?N = "declared_width f"
  let ?P = "sum_list (map declared_width pre)"
  let ?Q = "sum_list (map declared_width post)"
  let ?fs = "pre @ f # post"
  let ?L = "tpl_byteLength (Template_new ?fs)"
  let ?w0 = "Writer_new (allocUnsafe mem ?L) 0"
  from all have wf: "u8_wf (fld_data f)" and le: "?N \<le> u8_byteLength (fld_data f)" by simp_all
  from all have apre: "\<forall>g \<in> set pre.
      u8_wf (fld_data g) \<and> declared_width g \<le> u8_byteLength (fld_data g)" by simp
  from all have apost: "\<forall>g \<in> set post.
      u8_wf (fld_data g) \<and> declared_width g \<le> u8_byteLength (fld_data g)" by simp
  have "sum_list (map declared_width ?fs) \<le> sum_list (map (\<lambda>g. u8_byteLength (fld_data g)) ?fs)"
    using all by (intro sum_list_mono) blast
  then have total: "?P + ?N + ?Q \<le> ?L" by (simp add: Template_new_byteLength)
  have w0: "wr_offset ?w0 = 0" "length (wr_buffer ?w0) = ?L"
    by (simp_all add: Writer_new_def allocUnsafe_def)
  from total w0 have r0: "wr_offset ?w0 + int ?P \<le> int (length (wr_buffer ?w0))" by simp
  from w0 have o0: "0 \<le> wr_offset ?w0" by simp
  from toBuffer_loop_step [OF apre o0 r0] w0 obtain w1 where
    s1: "toBuffer_loop ?w0 pre = Inr w1"
    and o1: "wr_offset w1 = int ?P"
    and l1: "length (wr_buffer w1) = ?L" by auto
  from o1 have off1: "0 \<le> wr_offset w1" by simp
  from total o1 l1 have room1: "wr_offset w1 + int ?N \<le> int (length (wr_buffer w1))" by simp
  from wf le have big: "?N \<le> length (u8_buffer (fld_data f))" by (simp add: u8_wf_def)
  let ?R = "rev (take ?N (u8_buffer (fld_data f)))"
  let ?B2 = "take ?P (wr_buffer w1) @ ?R @ drop (?P + ?N) (wr_buffer w1)"
  let ?w2 = "w1\<lparr>wr_buffer := ?B2, wr_offset := int ?P + int ?N\<rparr>"
  from toBuffer_field_int [OF ty big off1 room1] o1 have s2: "toBuffer_field w1 f = Inr ?w2"
    by simp
  from total l1 big have l2: "length (wr_buffer ?w2) = ?L" by simp
  have o2: "0 \<le> wr_offset ?w2" by simp
  from total l2 have room2: "wr_offset ?w2 + int ?Q \<le> int (length (wr_buffer ?w2))" by simp
  from toBuffer_loop_step [OF apost o2 room2] obtain w3 where
    s3: "toBuffer_loop ?w2 post = Inr w3"
    and p3: "take (nat (wr_offset ?w2)) (wr_buffer w3) = take (nat (wr_offset ?w2)) (wr_buffer ?w2)"
    by blast
  from s1 s2 s3 have run: "toBuffer_loop ?w0 ?fs = Inr w3"
    by (simp add: toBuffer_loop_append)
  then have res: "toBuffer mem (Template_new ?fs) = Inr (wr_buffer w3)"
    by (simp add: toBuffer_def Template_new_def)
  have "nat (wr_offset ?w2) = ?P + ?N" by simp
  with p3 have p3': "take (?P + ?N) (wr_buffer w3) = take (?P + ?N) ?B2" by simp
  have lenR: "length ?R = ?N" using big by simp
  from total l1 have lenP: "length (take ?P (wr_buffer w1)) = ?P" by simp
  have "take ?N (drop ?P (wr_buffer w3)) = take ?N (drop ?P (take (?P + ?N) (wr_buffer w3)))"
    by (rule take_drop_prefix [symmetric])
  also have "\<dots> = take ?N (drop ?P (take (?P + ?N) ?B2))" by (simp only: p3')
  also have "\<dots> = take ?N (drop ?P ?B2)" by (rule take_drop_prefix)
  also have "drop ?P ?B2 = ?R @ drop (?P + ?N) (wr_buffer w1)" using lenP by simp
  also have "take ?N (?R @ drop (?P + ?N) (wr_buffer w1)) = ?R" using lenR by simp
  finally have out: "take ?N (drop ?P (wr_buffer w3)) = ?R" .
  from zero le have same: "take ?N (u8_buffer (fld_data f)) = take ?N (u8_bytes (fld_data f))"
    by (simp add: u8_bytes_def min_absorb2)
  from wf zero have "length (u8_bytes (fld_data f)) = u8_byteLength (fld_data f)"
    by (simp add: u8_bytes_def u8_wf_def)
  with le have "?N \<le> length (u8_bytes (fld_data f))" by simp
  from getInt_big_endian [OF this] obtain v where
    g: "DataView_getInt ?N False (u8_bytes (fld_data f)) 0 = Inr v"
    and e: "le_bytes ?N v = rev (take ?N (u8_bytes (fld_data f)))" by blast
  from out same e have "take ?N (drop ?P (wr_buffer w3)) = le_bytes ?N v" by simp
  with res g e show ?thesis by blast
qed

theorem toBuffer_reverses_field_witness:
  "list_all (\<lambda>g. u8_wf (fld_data g) \<and> declared_width g \<le> u8_byteLength (fld_data g)) spec_fields
   \<and> fld_type uint32_field \<noteq> buffer
   \<and> u8_byteOffset (fld_data uint32_field) = 0
   \<and> toBuffer zero_memory (Template_new spec_fields)
       = Inr [1, 2, 3, 4, 5, 6, 7, 8, 9, 10, 11, 12, 13, 14, 15]
   \<and> u8_bytes (fld_data uint32_field) = [7, 6, 5, 4]
   \<and> take (declared_width uint32_field) (drop 3 [1, 2, 3, 4, 5, 6, 7, 8, 9, 10, 11, 12, 13, 14, 15])
       = rev (take (declared_width uint32_field) (u8_bytes (fld_data uint32_field)))"
proof -
  let ?pre = "[\<lparr>fld_type = uint8, fld_data = Uint8Array_of [1]\<rparr>,
               \<lparr>fld_type = uint16, fld_data = Uint8Array_of [3, 2]\<rparr>]"
  let ?post = "[\<lparr>fld_type = buffer, fld_data = Uint8Array_of [8, 9, 10, 11, 12, 13, 14, 15]\<rparr>]"
  have sp: "spec_fields = ?pre @ uint32_field # ?post"
    by (simp add: spec_fields_def uint32_field_def)
  have h: "\<forall>g \<in> set spec_fields.
             u8_wf (fld_data g) \<and> declared_width g \<le> u8_byteLength (fld_data g)"
    by (simp add: spec_fields_def Uint8Array_of_def declared_width_def u8_wf_def)
  then have h': "\<forall>g \<in> set (?pre @ uint32_field # ?post).
             u8_wf (fld_data g) \<and> declared_width g \<le> u8_byteLength (fld_data g)"
    by (simp only: sp)
  have ty: "fld_type uint32_field \<noteq> buffer" by (simp add: uint32_field_def)
  have z: "u8_byteOffset (fld_data uint32_field) = 0"
    by (simp add: uint32_field_def Uint8Array_of_def)
  have p: "sum_list (map declared_width ?pre) = 3" by (simp add: declared_width_def)
  have d: "u8_bytes (fld_data uint32_field) = [7, 6, 5, 4]"
    by (simp add: uint32_field_def Uint8Array_of_def u8_bytes_def)
  have b: "toBuffer zero_memory (Template_new spec_fields)
             = Inr [1, 2, 3, 4, 5, 6, 7, 8, 9, 10, 11, 12, 13, 14, 15]"
    by code_simp
  from toBuffer_reverses_field [OF h' ty z, of zero_memory] obtain b' v where
    r: "toBuffer zero_memory (Template_new (?pre @ uint32_field # ?post)) = Inr b'"
    and t: "take (declared_width uint32_field) (drop (sum_list (map declared_width ?pre)) b')
              = le_bytes (declared_width uint32_field) v"
    and e: "le_bytes (declared_width uint32_field) v
              = rev (take (declared_width uint32_field) (u8_bytes (fld_data uint32_field)))"
    by blast
  from r b have "b' = [1, 2, 3, 4, 5, 6, 7, 8, 9, 10, 11, 12, 13, 14, 15]"
    by (simp only: sp [symmetric]) simp
  with t e p have c: "take (declared_width uint32_field)
        (drop 3 [1, 2, 3, 4, 5, 6, 7, 8, 9, 10, 11, 12, 13, 14, 15])
       = rev (take (declared_width uint32_field) (u8_bytes (fld_data uint32_field)))"
    by (simp only:)
  from h have la: "list_all (\<lambda>g. u8_wf (fld_data g) \<and> declared_width g \<le> u8_byteLength (fld_data g)) spec_fields"
    by (simp only: list_all_iff)
  from la ty z b d c show ?thesis by (intro conjI)
qed

end
